theory Spec2Isabelle
  imports Complex_Main "HOL-Library.AList"
begin

section \<open>JSON values and Python truthiness\<close>

text \<open>
  Both modules exchange JSON with their remote services. A JSON scalar is a \<open>jval\<close>; Python's
  \<^verbatim>\<open>None\<close> is \<open>JNull\<close>, and \<open>py_get\<close> is \<^verbatim>\<open>d.get(k, default)\<close> on a dict modelled as a map.
\<close>

datatype jval = JNull | JStr string | JNum real | JBool bool

definition py_get :: "(string \<rightharpoonup> jval) \<Rightarrow> string \<Rightarrow> jval \<Rightarrow> jval" where
  "py_get d k dflt = (case d k of None \<Rightarrow> dflt | Some v \<Rightarrow> v)"

text \<open>An optional Python string (\<^verbatim>\<open>None\<close> or a \<^verbatim>\<open>str\<close>) and its truth test.\<close>

definition truthy_str :: "string option \<Rightarrow> bool" where
  "truthy_str t = (case t of None \<Rightarrow> False | Some s \<Rightarrow> s \<noteq> [])"

definition jopt :: "string option \<Rightarrow> jval" where
  "jopt t = (case t of None \<Rightarrow> JNull | Some s \<Rightarrow> JStr s)"


section \<open>xinfadi\_crawler.py: the paginated fetch\<close>

text \<open>
  \<^verbatim>\<open>fetch_page\<close> wraps one HTTP GET in \<^verbatim>\<open>try/except\<close> with two handlers,
  \<^verbatim>\<open>requests.exceptions.RequestException\<close> and \<^verbatim>\<open>ValueError\<close>. The remote service is a function
  from the page number to the outcome of the \<^verbatim>\<open>try\<close> body for that page: one of the two handled
  exceptions, or the decoded JSON object. All other query parameters are constant during one
  call of \<^verbatim>\<open>fetch_all_data\<close>. Of the JSON object only the three keys the loop reads are kept,
  each optional: \<^verbatim>\<open>list\<close>, \<^verbatim>\<open>count\<close> and \<^verbatim>\<open>total\<close> (a list and two integers).
\<close>

datatype exn = RequestException | ValueError

record 'r api_response =
  resp_list :: "'r list option"
  resp_count :: "int option"
  resp_total :: "int option"

definition fetch_page :: "(nat \<Rightarrow> exn + 'r api_response) \<Rightarrow> nat \<Rightarrow> 'r api_response" where
  "fetch_page remote p =
     (case remote p of
        Inr response \<Rightarrow> response
      | Inl RequestException \<Rightarrow> \<lparr>resp_list = Some [], resp_count = None, resp_total = Some 0\<rparr>
      | Inl ValueError \<Rightarrow> \<lparr>resp_list = Some [], resp_count = None, resp_total = Some 0\<rparr>)"

text \<open>\<^verbatim>\<open>result.get("list", [])\<close> and \<^verbatim>\<open>result.get("count", 0) or result.get("total", 0)\<close>.\<close>

definition get_list :: "'r api_response \<Rightarrow> 'r list" where
  "get_list result = (case resp_list result of None \<Rightarrow> [] | Some l \<Rightarrow> l)"

definition get_total :: "'r api_response \<Rightarrow> int" where
  "get_total result =
     (let c = (case resp_count result of None \<Rightarrow> 0 | Some c \<Rightarrow> c)
      in if c \<noteq> 0 then c else (case resp_total result of None \<Rightarrow> 0 | Some t \<Rightarrow> t))"

text \<open>
  The guard \<^verbatim>\<open>if max_pages and page > max_pages\<close>: \<^verbatim>\<open>max_pages\<close> is an optional integer, and
  Python's truth test makes both \<^verbatim>\<open>None\<close> and \<^verbatim>\<open>0\<close> skip the comparison.
\<close>

definition cap_reached :: "int option \<Rightarrow> nat \<Rightarrow> bool" where
  "cap_reached max_pages p =
     (case max_pages of None \<Rightarrow> False | Some m \<Rightarrow> m \<noteq> 0 \<and> int p > m)"

text \<open>
  The loop state is the two local variables \<^verbatim>\<open>page\<close> and \<^verbatim>\<open>all_data\<close>, and a log of two of
  the loop's effects: each call of \<^verbatim>\<open>fetch_page\<close> (\<open>Requested page\<close>) and each progress line
  printed after a non-empty page (\<open>Progress page len(data_list) len(all_data) total\<close>).
  The loop is \<^verbatim>\<open>while True\<close>; it need not terminate, so not returning is the value \<open>None\<close>.
\<close>

datatype event = Requested nat | Progress nat nat nat int

record 'r fetch_state =
  page :: nat
  all_data :: "'r list"
  events :: "event list"

partial_function (option) fetch_loop ::
  "(nat \<Rightarrow> exn + 'r api_response) \<Rightarrow> int option \<Rightarrow> 'r fetch_state \<Rightarrow> 'r fetch_state option" where
  "fetch_loop remote max_pages s =
     (if cap_reached max_pages (page s) then Some s
      else
        let result = fetch_page remote (page s);
            s1 = s\<lparr>events := events s @ [Requested (page s)]\<rparr>;
            data_list = get_list result;
            total = get_total result
        in if data_list = [] then Some s1
           else
             let s2 = s1\<lparr>all_data := all_data s1 @ data_list\<rparr>;
                 s3 = s2\<lparr>events := events s2 @
                        [Progress (page s2) (length data_list) (length (all_data s2)) total]\<rparr>
             in if int (length (all_data s3)) \<ge> total then Some s3
                else fetch_loop remote max_pages (s3\<lparr>page := page s3 + 1\<rparr>))"

definition initial_state :: "'r fetch_state" where
  "initial_state = \<lparr>page = 1, all_data = [], events = []\<rparr>"

definition fetch_all_data :: "(nat \<Rightarrow> exn + 'r api_response) \<Rightarrow> int option \<Rightarrow> 'r list option" where
  "fetch_all_data remote max_pages = map_option all_data (fetch_loop remote max_pages initial_state)"

subsection \<open>Vocabulary for stating the loop's behaviour\<close>

text \<open>
  What page \<open>k\<close> delivers, what has been accumulated once pages \<open>1..k\<close> are appended, the log
  those pages leave, and the state at the top of the iteration for page \<open>k\<close>.
\<close>

definition data_of :: "(nat \<Rightarrow> exn + 'r api_response) \<Rightarrow> nat \<Rightarrow> 'r list" where
  "data_of remote k = get_list (fetch_page remote k)"

definition total_of :: "(nat \<Rightarrow> exn + 'r api_response) \<Rightarrow> nat \<Rightarrow> int" where
  "total_of remote k = get_total (fetch_page remote k)"

definition acc_upto :: "(nat \<Rightarrow> exn + 'r api_response) \<Rightarrow> nat \<Rightarrow> 'r list" where
  "acc_upto remote k = concat (map (data_of remote) [1..<Suc k])"

definition progress_of :: "(nat \<Rightarrow> exn + 'r api_response) \<Rightarrow> nat \<Rightarrow> event" where
  "progress_of remote k =
     Progress k (length (data_of remote k)) (length (acc_upto remote k)) (total_of remote k)"

definition events_upto :: "(nat \<Rightarrow> exn + 'r api_response) \<Rightarrow> nat \<Rightarrow> event list" where
  "events_upto remote k = concat (map (\<lambda>j. [Requested j, progress_of remote j]) [1..<Suc k])"

definition at_page :: "(nat \<Rightarrow> exn + 'r api_response) \<Rightarrow> nat \<Rightarrow> 'r fetch_state" where
  "at_page remote k =
     \<lparr>page = k, all_data = acc_upto remote (k - 1), events = events_upto remote (k - 1)\<rparr>"

text \<open>
  The three exits of the loop body, in the order the code tests them, read at page \<open>k\<close>: the
  page guard, the empty list, and the accumulated count having reached the reported total.
\<close>

definition stops :: "(nat \<Rightarrow> exn + 'r api_response) \<Rightarrow> int option \<Rightarrow> nat \<Rightarrow> bool" where
  "stops remote max_pages k \<longleftrightarrow>
     cap_reached max_pages k \<or> data_of remote k = [] \<or>
     total_of remote k \<le> int (length (acc_upto remote k))"

definition stopped_at :: "(nat \<Rightarrow> exn + 'r api_response) \<Rightarrow> int option \<Rightarrow> nat \<Rightarrow> 'r fetch_state" where
  "stopped_at remote max_pages n =
     (if cap_reached max_pages n then at_page remote n
      else if data_of remote n = []
        then (at_page remote n)\<lparr>events := events_upto remote (n - 1) @ [Requested n]\<rparr>
        else \<lparr>page = n, all_data = acc_upto remote n, events = events_upto remote n\<rparr>)"

text \<open>
  The page guard as the specification words it: \<^verbatim>\<open>max_pages\<close> is set, and the page number
  exceeds it.
\<close>

definition cap_as_specified :: "int option \<Rightarrow> nat \<Rightarrow> bool" where
  "cap_as_specified max_pages p = (case max_pages of None \<Rightarrow> False | Some m \<Rightarrow> int p > m)"

definition progress_ok :: "event \<Rightarrow> bool" where
  "progress_ok e = (case e of Requested p \<Rightarrow> True | Progress p got cnt tot \<Rightarrow> int cnt \<le> tot)"

text \<open>A remote with one record per page (the page number itself) that reports a total of 2.\<close>

definition two_pages :: "nat \<Rightarrow> exn + nat api_response" where
  "two_pages p = Inr \<lparr>resp_list = Some [p], resp_count = None, resp_total = Some 2\<rparr>"

text \<open>A remote with two pages of one record each, an empty third page, and a total of 5.\<close>

definition short_remote :: "nat \<Rightarrow> exn + nat api_response" where
  "short_remote p =
     Inr \<lparr>resp_list = Some (if p < 3 then [p] else []), resp_count = Some 5, resp_total = None\<rparr>"

text \<open>A remote whose second request fails in transport.\<close>

definition failing_remote :: "nat \<Rightarrow> exn + nat api_response" where
  "failing_remote p =
     (if p = 2 then Inl RequestException
      else Inr \<lparr>resp_list = Some [p], resp_count = Some 9, resp_total = None\<rparr>)"


section \<open>feishu\_sync.py: token management\<close>

text \<open>
  The client object holds the cached tokens and one expiry timestamp shared by both kinds of
  token. Beside these attributes the state carries the world the methods act on: the content
  of the config file (absent, unusable as a JSON object, or a JSON object as an association
  list in key order), whether that file can be opened for writing, and the list of endpoints
  POSTed to so far. Timestamps are real numbers.
\<close>

datatype config_content = Missing | Unusable | Stored "(string \<times> jval) list"

datatype endpoint = App_access_token | Oidc_access_token | Oidc_refresh_access_token
  | Tenant_access_token

record sync_state =
  user_access_token :: "string option"
  refresh_token :: "string option"
  tenant_access_token :: "string option"
  token_expires_at :: real
  use_tenant_token :: bool
  config_file :: config_content
  config_writable :: bool
  posted :: "endpoint list"

text \<open>
  The decoded replies of the three kinds of endpoint; every key is optional, as \<^verbatim>\<open>.get\<close>
  treats it. A reply of \<open>None\<close> in the environment stands for an exception raised by the
  POST or by decoding the body, which each method catches with \<^verbatim>\<open>except Exception\<close>.
  The environment also holds the clock readings: \<open>now\<close> is \<^verbatim>\<open>datetime.now().timestamp()\<close>
  as read by an accessor, \<open>now_renewed\<close> as read when a delegated token is stored, and
  \<open>now_iso\<close> the text of \<^verbatim>\<open>datetime.now().isoformat()\<close> read by \<^verbatim>\<open>_save_config\<close>.
\<close>

record app_reply =
  app_code :: "int option"
  app_access_token :: "string option"

record token_data =
  access_token :: "string option"
  new_refresh_token :: "string option"
  expires_in :: "real option"

record user_reply =
  user_code :: "int option"
  user_data :: "token_data option"

record tenant_reply =
  tenant_code :: "int option"
  tenant_token :: "string option"
  tenant_expire :: "real option"

record auth_env =
  now :: real
  now_renewed :: real
  now_iso :: string
  app_response :: "app_reply option"
  exchange_response :: "user_reply option"
  refresh_response :: "user_reply option"
  tenant_response :: "tenant_reply option"

definition save_config :: "auth_env \<Rightarrow> sync_state \<Rightarrow> sync_state" where
  "save_config env s =
     (case config_file s of
        Unusable \<Rightarrow> s
      | content \<Rightarrow>
          let config = (case content of Stored c \<Rightarrow> c | _ \<Rightarrow> []);
              config = AList.update ''user_access_token'' (jopt (user_access_token s)) config;
              config = AList.update ''refresh_token'' (jopt (refresh_token s)) config;
              config = AList.update ''token_expires_at'' (JNum (token_expires_at s)) config;
              config = AList.update ''updated_at'' (JStr (now_iso env)) config
          in if config_writable s then s\<lparr>config_file := Stored config\<rparr> else s)"

text \<open>
  The part \<^verbatim>\<open>exchange_code_for_token\<close> and \<^verbatim>\<open>refresh_user_token\<close> share after the second
  POST: on \<^verbatim>\<open>code == 0\<close> store the token pair and the expiry, then save the config.
\<close>

definition store_user_token :: "auth_env \<Rightarrow> user_reply \<Rightarrow> sync_state \<Rightarrow> bool \<times> sync_state" where
  "store_user_token env result s =
     (if user_code result = Some 0
      then
        let d = (case user_data result of
                   None \<Rightarrow> \<lparr>access_token = None, new_refresh_token = None, expires_in = None\<rparr>
                 | Some d \<Rightarrow> d);
            expire = (case expires_in d of None \<Rightarrow> 7200 | Some e \<Rightarrow> e);
            s' = s\<lparr>user_access_token := access_token d,
                   refresh_token := new_refresh_token d,
                   token_expires_at := now_renewed env + expire\<rparr>
        in (True, save_config env s')
      else (False, s))"


definition refresh_user_token :: "auth_env \<Rightarrow> sync_state \<Rightarrow> bool \<times> sync_state" where
  "refresh_user_token env s =
     (if \<not> truthy_str (refresh_token s) then (False, s)
      else
        let s1 = s\<lparr>posted := posted s @ [App_access_token]\<rparr>
        in case app_response env of
             None \<Rightarrow> (False, s1)
           | Some result \<Rightarrow>
               if app_code result \<noteq> Some 0 then (False, s1)
               else
                 let s2 = s1\<lparr>posted := posted s1 @ [Oidc_refresh_access_token]\<rparr>
                 in (case refresh_response env of
                       None \<Rightarrow> (False, s2)
                     | Some result \<Rightarrow> store_user_token env result s2))"

definition get_user_access_token :: "auth_env \<Rightarrow> sync_state \<Rightarrow> string option \<times> sync_state" where
  "get_user_access_token env s =
     (if \<not> truthy_str (user_access_token s) then (None, s)
      else if now env \<ge> token_expires_at s - 300
        then (case refresh_user_token env s of
                (False, s') \<Rightarrow> (None, s')
              | (True, s') \<Rightarrow> (user_access_token s', s'))
        else (user_access_token s, s))"

definition get_tenant_access_token :: "auth_env \<Rightarrow> sync_state \<Rightarrow> string option \<times> sync_state" where
  "get_tenant_access_token env s =
     (if truthy_str (tenant_access_token s) \<and> now env < token_expires_at s - 300
      then (tenant_access_token s, s)
      else
        let s1 = s\<lparr>posted := posted s @ [Tenant_access_token]\<rparr>
        in case tenant_response env of
             None \<Rightarrow> (None, s1)
           | Some result \<Rightarrow>
               if tenant_code result = Some 0
               then
                 let expire = (case tenant_expire result of None \<Rightarrow> 7200 | Some e \<Rightarrow> e);
                     s2 = s1\<lparr>tenant_access_token := tenant_token result,
                              token_expires_at := now env + expire\<rparr>
                 in (tenant_access_token s2, s2)
               else (None, s1))"

text \<open>
  What a renewal attempt by an accessor leaves behind, read off the result \<open>out\<close> (the returned
  token and the state). For the delegated token: without a refresh token nothing is posted and
  nothing is returned; otherwise the application token is requested first, and when both
  replies report \<^verbatim>\<open>code == 0\<close> the refresh endpoint has been posted to as well and the token
  pair and expiry of the reply are stored and the new access token returned; on any failure
  nothing is returned and the cached token and expiry stay. For the service token: the tenant
  endpoint is posted to once, and the reply's token and expiry are stored and returned on
  \<^verbatim>\<open>code == 0\<close>, nothing is returned otherwise.
\<close>

definition delegated_renewal :: "auth_env \<Rightarrow> sync_state \<Rightarrow> string option \<times> sync_state \<Rightarrow> bool" where
  "delegated_renewal env s out \<longleftrightarrow>
     (if \<not> truthy_str (refresh_token s) then out = (None, s)
      else
        take (Suc (length (posted s))) (posted (snd out)) = posted s @ [App_access_token] \<and>
        (case (app_response env, refresh_response env) of
           (Some a, Some r) \<Rightarrow>
             if app_code a = Some 0 \<and> user_code r = Some 0
             then
               let d = (case user_data r of
                          None \<Rightarrow> \<lparr>access_token = None, new_refresh_token = None, expires_in = None\<rparr>
                        | Some d \<Rightarrow> d)
               in posted (snd out) = posted s @ [App_access_token, Oidc_refresh_access_token] \<and>
                  fst out = access_token d \<and>
                  user_access_token (snd out) = access_token d \<and>
                  refresh_token (snd out) = new_refresh_token d \<and>
                  token_expires_at (snd out) =
                    now_renewed env + (case expires_in d of None \<Rightarrow> 7200 | Some e \<Rightarrow> e)
             else fst out = None \<and> user_access_token (snd out) = user_access_token s \<and>
                  token_expires_at (snd out) = token_expires_at s
         | _ \<Rightarrow> fst out = None \<and> user_access_token (snd out) = user_access_token s \<and>
                  token_expires_at (snd out) = token_expires_at s))"

definition service_renewal :: "auth_env \<Rightarrow> sync_state \<Rightarrow> string option \<times> sync_state \<Rightarrow> bool" where
  "service_renewal env s out \<longleftrightarrow>
     posted (snd out) = posted s @ [Tenant_access_token] \<and>
     (case tenant_response env of
        Some r \<Rightarrow>
          if tenant_code r = Some 0
          then fst out = tenant_token r \<and> tenant_access_token (snd out) = tenant_token r \<and>
               token_expires_at (snd out) =
                 now env + (case tenant_expire r of None \<Rightarrow> 7200 | Some e \<Rightarrow> e)
          else fst out = None \<and> tenant_access_token (snd out) = tenant_access_token s \<and>
               token_expires_at (snd out) = token_expires_at s
      | None \<Rightarrow> fst out = None \<and> tenant_access_token (snd out) = tenant_access_token s \<and>
               token_expires_at (snd out) = token_expires_at s)"



text \<open>A client with a delegated token on file, and an environment in which every request succeeds.\<close>

definition demo_config :: "(string \<times> jval) list" where
  "demo_config =
     [(''app_id'', JStr ''cli_a''), (''user_access_token'', JStr ''u-1''),
      (''refresh_token'', JStr ''r-1''), (''token_expires_at'', JNum 5000)]"

definition demo_state :: sync_state where
  "demo_state =
     \<lparr>user_access_token = Some ''u-1'', refresh_token = Some ''r-1'',
      tenant_access_token = None, token_expires_at = 5000, use_tenant_token = False,
      config_file = Stored demo_config, config_writable = True, posted = []\<rparr>"

definition demo_env :: auth_env where
  "demo_env =
     \<lparr>now = 6000, now_renewed = 6001, now_iso = ''t'',
      app_response = Some \<lparr>app_code = Some 0, app_access_token = Some ''a-1''\<rparr>,
      exchange_response = Some \<lparr>user_code = Some 0, user_data =
        Some \<lparr>access_token = Some ''u-2'', new_refresh_token = Some ''r-2'', expires_in = Some 7200\<rparr>\<rparr>,
      refresh_response = Some \<lparr>user_code = Some 0, user_data =
        Some \<lparr>access_token = Some ''u-3'', new_refresh_token = Some ''r-3'', expires_in = Some 7200\<rparr>\<rparr>,
      tenant_response = Some \<lparr>tenant_code = Some 0, tenant_token = Some ''t-1'',
        tenant_expire = Some 7200\<rparr>\<rparr>"


section \<open>feishu\_sync.py: unique names and chunked writes\<close>

text \<open>Python's \<^verbatim>\<open>str\<close> of a non-negative integer.\<close>

definition digit_char :: "nat \<Rightarrow> char" where
  "digit_char d = char_of (of_char CHR ''0'' + d)"

fun str_nat :: "nat \<Rightarrow> string" where
  "str_nat n = (if n < 10 then [digit_char n] else str_nat (n div 10) @ [digit_char (n mod 10)])"

declare str_nat.simps [simp del]

text \<open>
  \<^verbatim>\<open>get_unique_filename\<close>: the listing is the return value of \<^verbatim>\<open>list_folder_files\<close>, a list of
  dicts; the set of existing names collects \<^verbatim>\<open>f.get('name', '')\<close>. The probe is a
  \<^verbatim>\<open>while True\<close> loop over the counter.
\<close>

definition existing_names :: "(string \<rightharpoonup> jval) list \<Rightarrow> jval set" where
  "existing_names files = set (map (\<lambda>f. py_get f ''name'' (JStr [])) files)"

definition candidate :: "string \<Rightarrow> nat \<Rightarrow> string" where
  "candidate base_name counter = base_name @ ''_('' @ str_nat counter @ '')''"

partial_function (option) probe :: "jval set \<Rightarrow> string \<Rightarrow> nat \<Rightarrow> string option" where
  "probe names base_name counter =
     (let new_name = candidate base_name counter
      in if JStr new_name \<notin> names then Some new_name
         else probe names base_name (counter + 1))"

definition get_unique_filename :: "(string \<rightharpoonup> jval) list \<Rightarrow> string \<Rightarrow> string option" where
  "get_unique_filename files base_name =
     (let names = existing_names files
      in if JStr base_name \<notin> names then Some base_name else probe names base_name 1)"

text \<open>The local function \<^verbatim>\<open>col_to_letter\<close> of \<^verbatim>\<open>write_data\<close>.\<close>

function col_to_letter_loop :: "nat \<Rightarrow> string \<Rightarrow> string" where
  "col_to_letter_loop col result =
     (if col > 0
      then col_to_letter_loop ((col - 1) div 26)
             (char_of ((col - 1) mod 26 + of_char CHR ''A'') # result)
      else result)"
  by pat_completeness auto
termination
  by (relation "measure fst") auto

declare col_to_letter_loop.simps [simp del]

definition col_to_letter :: "nat \<Rightarrow> string" where
  "col_to_letter col = col_to_letter_loop col []"

text \<open>
  What the specification calls the spreadsheet-style base-26 encoding: a string of letters
  \<open>A\<close> to \<open>Z\<close> read as a number with digits 1 to 26, most significant first.
\<close>

definition letter_digit :: "char \<Rightarrow> nat" where
  "letter_digit c = of_char c - 64"

definition letters_value :: "string \<Rightarrow> nat" where
  "letters_value s = foldl (\<lambda>v c. 26 * v + letter_digit c) 0 s"

definition is_upper :: "char \<Rightarrow> bool" where
  "is_upper c = (let n = of_char c :: nat in 65 \<le> n \<and> n \<le> 90)"

text \<open>
  The start row: \<^verbatim>\<open>re.match(r'^([A-Z]+)(\d+)$', start_cell.upper())\<close>, on ASCII text. The two
  character classes are disjoint, so the greedy match is the longest run of letters followed by
  the longest run of digits; \<^verbatim>\<open>$\<close> also matches before one final newline.
\<close>

definition is_digit :: "char \<Rightarrow> bool" where
  "is_digit c = (let n = of_char c :: nat in 48 \<le> n \<and> n \<le> 57)"

definition int_of_digits :: "string \<Rightarrow> nat" where
  "int_of_digits ds = foldl (\<lambda>v c. 10 * v + (of_char c - 48)) 0 ds"

definition upper_char :: "char \<Rightarrow> char" where
  "upper_char c =
     (let n = of_char c :: nat in if 97 \<le> n \<and> n \<le> 122 then char_of (n - 32) else c)"

definition start_row_of :: "string \<Rightarrow> nat" where
  "start_row_of start_cell =
     (let u = map upper_char start_cell;
          letters = takeWhile is_upper u;
          rest = dropWhile is_upper u;
          digits = takeWhile is_digit rest;
          tail = dropWhile is_digit rest
      in if letters \<noteq> [] \<and> digits \<noteq> [] \<and> (tail = [] \<or> tail = [CHR 0x0A])
         then int_of_digits digits else 1)"

text \<open>
  One PUT per chunk. The reply to the PUT of chunk \<open>batch_idx\<close> is either an exception inside
  the \<^verbatim>\<open>try\<close> block or the value of \<^verbatim>\<open>result.get('code')\<close>. A request is logged with the
  spreadsheet token of its URL, its range and its rows; the authorisation header is left out.
  The loop \<^verbatim>\<open>for batch_idx in range(batches)\<close> runs over the list of indices and returns
  \<^verbatim>\<open>False\<close> at the first chunk that is not accepted. Row numbers are natural numbers: inside
  the loop the grid is non-empty and the batch size positive, so \<open>batch_end\<close> is at least 1
  and the subtraction in \<open>current_end_row\<close> is exact.
\<close>

datatype put_outcome = Put_raises | Put_code "int option"

record 'c put_request =
  put_token :: string
  put_range :: string
  put_values :: "'c list list"

fun write_batches ::
  "(nat \<Rightarrow> put_outcome) \<Rightarrow> string \<Rightarrow> 'c list list \<Rightarrow> string \<Rightarrow> string \<Rightarrow> nat \<Rightarrow> nat \<Rightarrow>
   nat list \<Rightarrow> 'c put_request list \<Rightarrow> bool \<times> 'c put_request list" where
  "write_batches reply token data sheet_id end_col start_row batch_size [] puts = (True, puts)"
| "write_batches reply token data sheet_id end_col start_row batch_size (batch_idx # later) puts =
     (let total_rows = length data;
          batch_start = batch_idx * batch_size;
          batch_end = min ((batch_idx + 1) * batch_size) total_rows;
          batch_data = drop batch_start (take batch_end data);
          current_start_row = start_row + batch_start;
          current_end_row = start_row + batch_end - 1;
          range_str = sheet_id @ ''!A'' @ str_nat current_start_row @ '':'' @ end_col @
                      str_nat current_end_row;
          puts' = puts @ [\<lparr>put_token = token, put_range = range_str, put_values = batch_data\<rparr>]
      in case reply batch_idx of
           Put_raises \<Rightarrow> (False, puts')
         | Put_code c \<Rightarrow>
             if c \<noteq> Some 0 then (False, puts')
             else write_batches reply token data sheet_id end_col start_row batch_size later puts')"

text \<open>
  \<^verbatim>\<open>write_data\<close>. The attribute \<^verbatim>\<open>self.spreadsheet_token\<close> is read only when the argument is
  empty or \<^verbatim>\<open>None\<close>, and the class never assigns it: it is \<open>Unassigned\<close> (reading it raises
  \<^verbatim>\<open>AttributeError\<close>) unless a caller has set it. The batch size is a natural number (a
  negative one is left out); zero raises \<^verbatim>\<open>ZeroDivisionError\<close>.
\<close>

datatype py_error = AttributeError | ZeroDivisionError

datatype attribute = Unassigned | Assigned "string option"

definition write_data ::
  "(nat \<Rightarrow> put_outcome) \<Rightarrow> attribute \<Rightarrow> 'c list list \<Rightarrow> string \<Rightarrow> string \<Rightarrow> string option \<Rightarrow> nat \<Rightarrow>
   py_error + bool \<times> 'c put_request list" where
  "write_data reply self_spreadsheet_token data sheet_id start_cell spreadsheet_token batch_size =
     (case (if truthy_str spreadsheet_token then Inr spreadsheet_token
            else (case self_spreadsheet_token of
                    Unassigned \<Rightarrow> Inl AttributeError
                  | Assigned t \<Rightarrow> Inr t)) of
        Inl e \<Rightarrow> Inl e
      | Inr token \<Rightarrow>
          (case token of
             None \<Rightarrow> Inr (False, [])
           | Some tok \<Rightarrow>
               if tok = [] then Inr (False, [])
               else if data = [] then Inr (True, [])
               else
                 let cols = Max (set (map length data));
                     end_col = col_to_letter cols;
                     start_row = start_row_of start_cell;
                     total_rows = length data
                 in if batch_size = 0 then Inl ZeroDivisionError
                    else
                      let batches = (total_rows + batch_size - 1) div batch_size
                      in Inr (write_batches reply tok data sheet_id end_col start_row
                                batch_size [0..<batches] [])))"


section \<open>The paginated fetch: proofs\<close>

lemma acc_upto_Suc: "acc_upto remote (Suc k) = acc_upto remote k @ data_of remote (Suc k)"
  by (simp add: acc_upto_def)

lemma events_upto_Suc:
  "events_upto remote (Suc k) =
     events_upto remote k @ [Requested (Suc k), progress_of remote (Suc k)]"
  by (simp add: events_upto_def)

lemma at_page_1: "at_page remote (Suc 0) = initial_state"
  by (simp add: at_page_def initial_state_def acc_upto_def events_upto_def)

text \<open>One iteration from the state at the top of page \<open>Suc k\<close>, for any continuation.\<close>

lemma body_at_page:
  assumes "\<not> cap_reached max_pages (Suc k)"
    and "data_of remote (Suc k) \<noteq> []"
    and "\<not> total_of remote (Suc k) \<le> int (length (acc_upto remote (Suc k)))"
    and "s = at_page remote (Suc k)"
    and "(if cap_reached max_pages (page s) then Some s
      else
        let result = fetch_page remote (page s);
            s1 = s\<lparr>events := events s @ [Requested (page s)]\<rparr>;
            data_list = get_list result;
            total = get_total result
        in if data_list = [] then Some s1
           else
             let s2 = s1\<lparr>all_data := all_data s1 @ data_list\<rparr>;
                 s3 = s2\<lparr>events := events s2 @
                        [Progress (page s2) (length data_list) (length (all_data s2)) total]\<rparr>
             in if int (length (all_data s3)) \<ge> total then Some s3
                else loop remote max_pages (s3\<lparr>page := page s3 + 1\<rparr>)) = Some r"
  shows "loop remote max_pages (at_page remote (Suc (Suc k))) = Some r"
proof -
  have pg: "page s = Suc k"
    by (simp add: assms(4) at_page_def)
  show ?thesis
    using assms(5) assms(1-3) unfolding pg Let_def
    by (simp add: assms(4) at_page_def acc_upto_Suc events_upto_Suc progress_of_def
        data_of_def total_of_def del: upt_Suc)
qed

lemma loop_unfold:
  "fetch_loop remote max_pages (at_page remote (Suc k)) =
     (if cap_reached max_pages (Suc k) then Some (at_page remote (Suc k))
      else if data_of remote (Suc k) = []
        then Some ((at_page remote (Suc k))\<lparr>events := events_upto remote k @ [Requested (Suc k)]\<rparr>)
      else if total_of remote (Suc k) \<le> int (length (acc_upto remote (Suc k)))
        then Some \<lparr>page = Suc k, all_data = acc_upto remote (Suc k),
                   events = events_upto remote (Suc k)\<rparr>
      else fetch_loop remote max_pages (at_page remote (Suc (Suc k))))"
  apply (subst fetch_loop.simps)
  apply (simp add: at_page_def Let_def acc_upto_Suc events_upto_Suc progress_of_def
      data_of_def total_of_def del: upt_Suc)
  done

lemma loop_continues:
  assumes "\<not> stops remote max_pages (Suc k)"
  shows "fetch_loop remote max_pages (at_page remote (Suc k)) =
         fetch_loop remote max_pages (at_page remote (Suc (Suc k)))"
  using assms by (subst loop_unfold) (simp add: stops_def)

lemma loop_stops:
  assumes "stops remote max_pages (Suc k)"
  shows "fetch_loop remote max_pages (at_page remote (Suc k)) =
         Some (stopped_at remote max_pages (Suc k))"
  using assms by (subst loop_unfold) (auto simp add: stops_def stopped_at_def)

lemma loop_runs_to:
  assumes "stops remote max_pages (Suc n)"
    and "\<forall>k\<in>{Suc p..<Suc n}. \<not> stops remote max_pages k"
    and "p \<le> n"
  shows "fetch_loop remote max_pages (at_page remote (Suc p)) =
         Some (stopped_at remote max_pages (Suc n))"
  using assms
proof (induction "n - p" arbitrary: p)
  case 0
  then have "p = n" by simp
  with 0 show ?case by (simp add: loop_stops)
next
  case (Suc d)
  then have "\<not> stops remote max_pages (Suc p)" and "Suc p \<le> n" and "d = n - Suc p"
    by auto
  moreover from Suc.prems have "\<forall>k\<in>{Suc (Suc p)..<Suc n}. \<not> stops remote max_pages k"
    by auto
  ultimately show ?case
    using Suc.hyps(1) [of "Suc p"] Suc.prems(1) by (simp add: loop_continues)
qed

lemma loop_returns_only_if:
  assumes "fetch_loop remote max_pages s = Some r"
  shows "\<forall>p. s = at_page remote (Suc p) \<longrightarrow> (\<exists>n\<ge>p. stops remote max_pages (Suc n))"
proof (rule fetch_loop.raw_induct
    [where P = "\<lambda>remote max_pages s r.
        \<forall>p. s = at_page remote (Suc p) \<longrightarrow> (\<exists>n\<ge>p. stops remote max_pages (Suc n))",
      OF _ assms])
  fix loop :: "(nat \<Rightarrow> exn + 'a api_response) \<Rightarrow> int option \<Rightarrow> 'a fetch_state \<Rightarrow> 'a fetch_state option"
    and remote max_pages s r
  assume IH: "\<And>remote max_pages s r. loop remote max_pages s = Some r \<Longrightarrow>
      \<forall>p. s = at_page remote (Suc p) \<longrightarrow> (\<exists>n\<ge>p. stops remote max_pages (Suc n))"
  assume body: "(if cap_reached max_pages (page s) then Some s
      else
        let result = fetch_page remote (page s);
            s1 = s\<lparr>events := events s @ [Requested (page s)]\<rparr>;
            data_list = get_list result;
            total = get_total result
        in if data_list = [] then Some s1
           else
             let s2 = s1\<lparr>all_data := all_data s1 @ data_list\<rparr>;
                 s3 = s2\<lparr>events := events s2 @
                        [Progress (page s2) (length data_list) (length (all_data s2)) total]\<rparr>
             in if int (length (all_data s3)) \<ge> total then Some s3
                else loop remote max_pages (s3\<lparr>page := page s3 + 1\<rparr>)) = Some r"
  show "\<forall>p. s = at_page remote (Suc p) \<longrightarrow> (\<exists>n\<ge>p. stops remote max_pages (Suc n))"
  proof (intro allI impI)
    fix p
    assume s: "s = at_page remote (Suc p)"
    show "\<exists>n\<ge>p. stops remote max_pages (Suc n)"
    proof (cases "stops remote max_pages (Suc p)")
      case True
      then show ?thesis by blast
    next
      case False
      then have "\<not> cap_reached max_pages (Suc p)" and "data_of remote (Suc p) \<noteq> []"
        and "\<not> total_of remote (Suc p) \<le> int (length (acc_upto remote (Suc p)))"
        by (simp_all add: stops_def)
      then have "loop remote max_pages (at_page remote (Suc (Suc p))) = Some r"
        using s body by (rule body_at_page)
      from IH [OF this] obtain n where "n \<ge> Suc p" "stops remote max_pages (Suc n)"
        by blast
      then show ?thesis by (intro exI [of _ n]) simp
    qed
  qed
qed

lemma first_stop_exists:
  assumes "stops remote max_pages (Suc n)"
  shows "\<exists>m. stops remote max_pages (Suc m) \<and>
             (\<forall>k\<in>{Suc 0..<Suc m}. \<not> stops remote max_pages k)"
proof -
  define m where "m = (LEAST m. stops remote max_pages (Suc m))"
  have "stops remote max_pages (Suc m)"
    unfolding m_def using assms by (rule LeastI)
  moreover have "\<not> stops remote max_pages (Suc j)" if "j < m" for j
    using that not_less_Least unfolding m_def by blast
  then have "\<forall>k\<in>{Suc 0..<Suc m}. \<not> stops remote max_pages k"
    by (metis Suc_le_D atLeastLessThan_iff Suc_less_eq)
  ultimately show ?thesis by blast
qed

lemma fetch_loop_returns_first_stop:
  assumes ret: "fetch_loop remote max_pages initial_state = Some r"
  shows "\<exists>n\<ge>1. stops remote max_pages n \<and> (\<forall>k\<in>{1..<n}. \<not> stops remote max_pages k) \<and>
           r = stopped_at remote max_pages n"
proof -
  have "\<exists>n\<ge>0. stops remote max_pages (Suc n)"
    using ret loop_returns_only_if [of remote max_pages initial_state r] at_page_1 [of remote]
    by metis
  then obtain m where m: "stops remote max_pages (Suc m)"
    "\<forall>k\<in>{Suc 0..<Suc m}. \<not> stops remote max_pages k"
    using first_stop_exists by blast
  then have "fetch_loop remote max_pages (at_page remote (Suc 0)) =
      Some (stopped_at remote max_pages (Suc m))"
    by (intro loop_runs_to) simp_all
  with ret have "r = stopped_at remote max_pages (Suc m)"
    by (simp add: at_page_1)
  with m show ?thesis
    by (intro exI [of _ "Suc m"]) simp
qed


lemma cap_reached_mono: "\<not> cap_reached max_pages n \<Longrightarrow> k \<le> n \<Longrightarrow> \<not> cap_reached max_pages k"
  by (auto simp add: cap_reached_def split: option.splits)

lemma length_acc_upto_mono: "k \<le> n \<Longrightarrow> length (acc_upto remote k) \<le> length (acc_upto remote n)"
  by (induction n) (auto simp add: acc_upto_Suc le_Suc_eq)

lemma progress_ok_events_upto:
  assumes "\<forall>k\<in>{1..m}. int (length (acc_upto remote k)) \<le> total_of remote k"
  shows "list_all progress_ok (events_upto remote m)"
  using assms
  by (induction m) (simp_all add: events_upto_def progress_ok_def progress_of_def)

text \<open>
  C1, as amended. The loop entered at page 1 returns state \<open>r\<close> exactly if there is a first page
  \<open>n\<close> at which one of its three exits holds, and \<open>r\<close> is the state that exit leaves: the
  page guard (\<^verbatim>\<open>max_pages\<close> is neither \<^verbatim>\<open>None\<close> nor 0 and the page number exceeds it), an
  empty record list, or an accumulated count that has reached the reported total. Nothing else
  makes it return, and with no such page it never returns.
\<close>
theorem fetch_loop_stops_iff:
  "fetch_loop remote max_pages initial_state = Some r \<longleftrightarrow>
     (\<exists>n\<ge>1. stops remote max_pages n \<and> (\<forall>k\<in>{1..<n}. \<not> stops remote max_pages k) \<and>
        r = stopped_at remote max_pages n)"
proof
  assume "fetch_loop remote max_pages initial_state = Some r"
  then show "\<exists>n\<ge>1. stops remote max_pages n \<and>
      (\<forall>k\<in>{1..<n}. \<not> stops remote max_pages k) \<and> r = stopped_at remote max_pages n"
    by (rule fetch_loop_returns_first_stop)
next
  assume "\<exists>n\<ge>1. stops remote max_pages n \<and>
      (\<forall>k\<in>{1..<n}. \<not> stops remote max_pages k) \<and> r = stopped_at remote max_pages n"
  then obtain n where n: "n \<ge> 1" "stops remote max_pages n"
    "\<forall>k\<in>{1..<n}. \<not> stops remote max_pages k" "r = stopped_at remote max_pages n"
    by blast
  then obtain m where "n = Suc m"
    by (cases n) auto
  with n have "fetch_loop remote max_pages (at_page remote (Suc 0)) =
      Some (stopped_at remote max_pages (Suc m))"
    by (intro loop_runs_to) simp_all
  with n \<open>n = Suc m\<close> show "fetch_loop remote max_pages initial_state = Some r"
    by (simp add: at_page_1)
qed

text \<open>
  C7. Let page \<open>n\<close> be the first empty page, let every page up to \<open>n\<close> report a total above
  the number of records available before it, and let the page guard not fire up to \<open>n\<close>. Then
  the loop returns at page \<open>n\<close>, having requested it once, with exactly the records of the
  pages before it; and every progress line it printed shows an accumulated count that does
  not exceed the total reported by the page just fetched.
\<close>
theorem fetch_loop_stops_at_first_empty_page:
  assumes "1 \<le> n"
    and "data_of remote n = []"
    and "\<forall>k\<in>{1..<n}. data_of remote k \<noteq> []"
    and "\<forall>k\<in>{1..n}. int (length (acc_upto remote n)) < total_of remote k"
    and "\<not> cap_reached max_pages n"
  shows "\<exists>r. fetch_loop remote max_pages initial_state = Some r \<and> page r = n \<and>
           all_data r = acc_upto remote (n - 1) \<and>
           events r = events_upto remote (n - 1) @ [Requested n] \<and>
           list_all progress_ok (events r)"
proof -
  obtain m where n: "n = Suc m"
    using assms(1) by (cases n) auto
  have below: "int (length (acc_upto remote k)) < total_of remote k" if "k \<in> {1..n}" for k
  proof -
    have "length (acc_upto remote k) \<le> length (acc_upto remote n)"
      using that by (intro length_acc_upto_mono) simp
    with assms(4) that show ?thesis by fastforce
  qed
  have "\<not> stops remote max_pages k" if "k \<in> {Suc 0..<Suc m}" for k
    using that assms(3,5) below [of k] cap_reached_mono [of max_pages n k]
    by (auto simp add: stops_def n)
  moreover have "stops remote max_pages (Suc m)"
    using assms(2) by (simp add: stops_def n)
  ultimately have "fetch_loop remote max_pages (at_page remote (Suc 0)) =
      Some (stopped_at remote max_pages (Suc m))"
    by (intro loop_runs_to) simp_all
  then have run: "fetch_loop remote max_pages initial_state =
      Some ((at_page remote n)\<lparr>events := events_upto remote (n - 1) @ [Requested n]\<rparr>)"
    using assms(2,5) by (simp add: at_page_1 stopped_at_def n)
  have "list_all progress_ok (events_upto remote m)"
    using below by (intro progress_ok_events_upto) (auto simp add: n less_imp_le)
  then have "list_all progress_ok (events_upto remote (n - 1) @ [Requested n])"
    by (simp add: n progress_ok_def)
  with run show ?thesis
    by (simp add: at_page_def)
qed


lemmas fetch_eval =
  stops_def stopped_at_def at_page_def events_upto_def progress_of_def total_of_def
  get_total_def acc_upto_def data_of_def fetch_page_def get_list_def cap_reached_def
  atLeastLessThan_upt atLeastAtMost_upt upt_rec

theorem fetch_loop_stops_iff_witness:
  "fetch_loop short_remote (Some 2) initial_state =
     Some \<lparr>page = 3, all_data = [1, 2],
           events = [Requested 1, Progress 1 1 1 5, Requested 2, Progress 2 1 2 5]\<rparr>"
proof -
  have "\<exists>n\<ge>1. stops short_remote (Some 2) n \<and> (\<forall>k\<in>{1..<n}. \<not> stops short_remote (Some 2) k) \<and>
     \<lparr>page = 3, all_data = [1, 2],
           events = [Requested 1, Progress 1 1 1 5, Requested 2, Progress 2 1 2 5]\<rparr>
      = stopped_at short_remote (Some 2) n"
    by (rule exI [of _ 3]) (simp add: fetch_eval short_remote_def)
  then show ?thesis
    using fetch_loop_stops_iff [of short_remote "Some 2"] by blast
qed

theorem fetch_loop_cap_zero_counterexample:
  "cap_as_specified (Some 0) 1 \<and>
   fetch_loop two_pages (Some 0) initial_state =
     Some \<lparr>page = 2, all_data = [1, 2],
           events = [Requested 1, Progress 1 1 1 2, Requested 2, Progress 2 1 2 2]\<rparr>"
proof -
  have "stops two_pages (Some 0) (Suc 1)" "\<forall>k\<in>{Suc 0..<Suc 1}. \<not> stops two_pages (Some 0) k"
    by (simp_all add: fetch_eval two_pages_def)
  then have "fetch_loop two_pages (Some 0) (at_page two_pages (Suc 0)) =
      Some (stopped_at two_pages (Some 0) (Suc 1))"
    by (rule loop_runs_to) simp
  moreover have "stopped_at two_pages (Some 0) (Suc 1) = \<lparr>page = 2, all_data = [1, 2],
           events = [Requested 1, Progress 1 1 1 2, Requested 2, Progress 2 1 2 2]\<rparr>"
    by (simp add: fetch_eval two_pages_def)
  moreover have "cap_as_specified (Some 0) 1"
    by (simp add: cap_as_specified_def)
  ultimately show ?thesis
    by (simp add: at_page_1)
qed

theorem fetch_loop_stops_at_first_empty_page_witness:
  "\<exists>r. fetch_loop short_remote None initial_state = Some r \<and> page r = 3 \<and>
       all_data r = [1, 2] \<and>
       events r = [Requested 1, Progress 1 1 1 5, Requested 2, Progress 2 1 2 5, Requested 3] \<and>
       list_all progress_ok (events r)"
proof -
  have "1 \<le> (3::nat)" "data_of short_remote 3 = []" "\<forall>k\<in>{1..<3}. data_of short_remote k \<noteq> []"
    "\<forall>k\<in>{1..3}. int (length (acc_upto short_remote 3)) < total_of short_remote k"
    "\<not> cap_reached None 3"
    by (simp_all add: fetch_eval short_remote_def)
  from fetch_loop_stops_at_first_empty_page [OF this]
  have "\<exists>r. fetch_loop short_remote None initial_state = Some r \<and> page r = 3 \<and>
           all_data r = acc_upto short_remote (3 - 1) \<and>
           events r = events_upto short_remote (3 - 1) @ [Requested 3] \<and>
           list_all progress_ok (events r)" .
  moreover have "acc_upto short_remote (3 - 1) = [1, 2]"
    "events_upto short_remote (3 - 1) @ [Requested 3] =
       [Requested 1, Progress 1 1 1 5, Requested 2, Progress 2 1 2 5, Requested 3]"
    by (simp_all add: fetch_eval short_remote_def)
  ultimately show ?thesis by simp
qed


lemma fetch_page_failed:
  assumes "remote p = Inl e"
  shows "fetch_page remote p = \<lparr>resp_list = Some [], resp_count = None, resp_total = Some 0\<rparr>"
  using assms by (cases e) (simp_all add: fetch_page_def)








text \<open>
  C2. When the request for the current page raises one of the two handled exceptions,
  \<^verbatim>\<open>fetch_page\<close> returns the dict with an empty list and total 0, and the loop returns at
  once: the records accumulated so far are unchanged, the page has been requested exactly once,
  and the result is the one an empty page would have given. When the loop has come to that
  page from page 1, \<^verbatim>\<open>fetch_all_data\<close> returns the records of the pages before it.
\<close>
theorem fetch_loop_failed_page:
  assumes "remote (page s) = Inl e"
    and "\<not> cap_reached max_pages (page s)"
  shows "fetch_page remote (page s) = \<lparr>resp_list = Some [], resp_count = None, resp_total = Some 0\<rparr> \<and>
         fetch_loop remote max_pages s = Some (s\<lparr>events := events s @ [Requested (page s)]\<rparr>) \<and>
         fetch_loop (remote(page s := Inr \<lparr>resp_list = Some [], resp_count = None, resp_total = Some 0\<rparr>))
           max_pages s = fetch_loop remote max_pages s \<and>
         (1 \<le> page s \<and> s = at_page remote (page s) \<and>
          (\<forall>k\<in>{1..<page s}. \<not> stops remote max_pages k) \<longrightarrow>
            fetch_all_data remote max_pages = Some (all_data s))"
proof -
  have failed: "fetch_page remote (page s) =
      \<lparr>resp_list = Some [], resp_count = None, resp_total = Some 0\<rparr>"
    using assms(1) by (rule fetch_page_failed)
  have here: "fetch_loop remote max_pages s = Some (s\<lparr>events := events s @ [Requested (page s)]\<rparr>)"
    using assms(2) by (subst fetch_loop.simps) (simp add: failed get_list_def)
  have as_empty: "fetch_loop (remote(page s := Inr \<lparr>resp_list = Some [], resp_count = None, resp_total = Some 0\<rparr>))
      max_pages s = Some (s\<lparr>events := events s @ [Requested (page s)]\<rparr>)"
    using assms(2) by (subst fetch_loop.simps) (simp add: fetch_page_def get_list_def)
  have "fetch_all_data remote max_pages = Some (all_data s)"
    if reach: "1 \<le> page s" "s = at_page remote (page s)"
      "\<forall>k\<in>{1..<page s}. \<not> stops remote max_pages k"
  proof -
    obtain m where m: "page s = Suc m"
      using reach(1) by (cases "page s") auto
    have "stops remote max_pages (Suc m)"
      using failed by (simp add: stops_def data_of_def get_list_def m)
    moreover have "\<forall>k\<in>{Suc 0..<Suc m}. \<not> stops remote max_pages k"
      using reach(3) by (simp add: m)
    ultimately have "fetch_loop remote max_pages (at_page remote (Suc 0)) =
        Some (stopped_at remote max_pages (Suc m))"
      by (rule loop_runs_to) simp
    moreover have "all_data (stopped_at remote max_pages (Suc m)) = acc_upto remote m"
      using failed assms(2) by (simp add: stopped_at_def at_page_def data_of_def get_list_def m)
    moreover have "all_data s = acc_upto remote m"
      using reach(2) by (subst reach(2)) (simp add: at_page_def m)
    ultimately show ?thesis
      by (simp add: fetch_all_data_def at_page_1)
  qed
  with failed here as_empty show ?thesis
    by simp
qed

theorem fetch_loop_failed_page_witness:
  "fetch_page failing_remote 2 = \<lparr>resp_list = Some [], resp_count = None, resp_total = Some 0\<rparr> \<and>
   fetch_loop failing_remote None \<lparr>page = 2, all_data = [1], events = [Requested 1, Progress 1 1 1 9]\<rparr> =
     Some \<lparr>page = 2, all_data = [1], events = [Requested 1, Progress 1 1 1 9, Requested 2]\<rparr> \<and>
   fetch_all_data failing_remote None = Some [1]"
proof -
  let ?s = "\<lparr>page = 2, all_data = [1], events = [Requested 1, Progress 1 1 1 9]\<rparr> :: nat fetch_state"
  have failing: "failing_remote (page ?s) = Inl RequestException"
    and open_guard: "\<not> cap_reached None (page ?s)"
    by (simp_all add: failing_remote_def cap_reached_def)
  have "at_page failing_remote 2 = ?s"
    by (simp add: fetch_eval failing_remote_def)
  moreover have "\<forall>k\<in>{1..<2}. \<not> stops failing_remote None k"
    by (simp add: fetch_eval failing_remote_def)
  ultimately have reached: "1 \<le> page ?s \<and> ?s = at_page failing_remote (page ?s) \<and>
      (\<forall>k\<in>{1..<page ?s}. \<not> stops failing_remote None k)"
    by simp
  note run = fetch_loop_failed_page [of failing_remote ?s RequestException None,
      OF failing open_guard]
  from run have "fetch_page failing_remote (page ?s) =
      \<lparr>resp_list = Some [], resp_count = None, resp_total = Some 0\<rparr>"
    and "fetch_loop failing_remote None ?s = Some (?s\<lparr>events := events ?s @ [Requested (page ?s)]\<rparr>)"
    by blast+
  moreover from run reached have "fetch_all_data failing_remote None = Some (all_data ?s)"
    by blast
  ultimately show ?thesis
    by simp
qed


section \<open>Column letters: proofs\<close>

lemma col_to_letter_loop_append:
  "col_to_letter_loop col result = col_to_letter_loop col [] @ result"
proof (induction col arbitrary: result rule: less_induct)
  case (less col)
  show ?case
  proof (cases "col > 0")
    case True
    let ?c = "char_of ((col - 1) mod 26 + of_char CHR ''A'') :: char"
    have smaller: "(col - 1) div 26 < col"
      using True by simp
    have "col_to_letter_loop col result = col_to_letter_loop ((col - 1) div 26) (?c # result)"
      using True by (subst col_to_letter_loop.simps) simp
    also have "\<dots> = col_to_letter_loop ((col - 1) div 26) [] @ ?c # result"
      using smaller by (rule less.IH)
    also have "\<dots> = (col_to_letter_loop ((col - 1) div 26) [] @ [?c]) @ result"
      by simp
    also have "col_to_letter_loop ((col - 1) div 26) [] @ [?c] =
        col_to_letter_loop ((col - 1) div 26) [?c]"
      using smaller by (rule less.IH [symmetric])
    also have "\<dots> = col_to_letter_loop col []"
      using True by (subst (2) col_to_letter_loop.simps) simp
    finally show ?thesis .
  next
    case False
    then show ?thesis by (simp add: col_to_letter_loop.simps)
  qed
qed

lemma col_to_letter_0: "col_to_letter 0 = []"
  by (simp add: col_to_letter_def col_to_letter_loop.simps)

lemma col_to_letter_pos:
  assumes "col > 0"
  shows "col_to_letter col =
         col_to_letter ((col - 1) div 26) @ [char_of ((col - 1) mod 26 + of_char CHR ''A'')]"
proof -
  have "col_to_letter col =
      col_to_letter_loop ((col - 1) div 26) [char_of ((col - 1) mod 26 + of_char CHR ''A'')]"
    unfolding col_to_letter_def using assms by (subst col_to_letter_loop.simps) simp
  then show ?thesis
    unfolding col_to_letter_def by (subst (asm) col_to_letter_loop_append) simp
qed

lemma letter_digit_char_of:
  assumes "k < 26"
  shows "letter_digit (char_of (k + 65)) = k + 1"
  using assms by (simp add: letter_digit_def)

lemma letters_value_snoc: "letters_value (s @ [c]) = 26 * letters_value s + letter_digit c"
  by (simp add: letters_value_def)

lemma letters_value_col_to_letter: "letters_value (col_to_letter col) = col"
proof (induction col rule: less_induct)
  case (less col)
  show ?case
  proof (cases "col = 0")
    case True
    then show ?thesis by (simp add: col_to_letter_0 letters_value_def)
  next
    case False
    then have "(col - 1) div 26 < col" by simp
    then have "letters_value (col_to_letter ((col - 1) div 26)) = (col - 1) div 26"
      by (rule less.IH)
    then have "letters_value (col_to_letter col) = 26 * ((col - 1) div 26) + ((col - 1) mod 26 + 1)"
      using False by (simp add: col_to_letter_pos letters_value_snoc letter_digit_char_of)
    also have "\<dots> = col"
      using False by simp
    finally show ?thesis .
  qed
qed

lemma set_col_to_letter: "set (col_to_letter col) \<subseteq> {c. is_upper c}"
proof (induction col rule: less_induct)
  case (less col)
  show ?case
  proof (cases "col = 0")
    case True
    then show ?thesis by (simp add: col_to_letter_0)
  next
    case False
    then have "(col - 1) div 26 < col" by simp
    then have "set (col_to_letter ((col - 1) div 26)) \<subseteq> {c. is_upper c}"
      by (rule less.IH)
    moreover have "is_upper (char_of ((col - 1) mod 26 + of_char CHR ''A''))"
      by (simp add: is_upper_def)
    ultimately show ?thesis
      using False by (simp add: col_to_letter_pos)
  qed
qed

lemmas letter_eval = col_to_letter_def col_to_letter_loop.simps char_of_def bit_iff_odd
  drop_bit_eq_div

text \<open>
  C8. For every positive column count \<^verbatim>\<open>col_to_letter\<close> yields a non-empty string of the letters
  \<open>A\<close> to \<open>Z\<close> whose value, read as a base-26 numeral with digits 1 to 26, is that count; and
  1, 26, 27, 52 and 53 are encoded as \<open>A\<close>, \<open>Z\<close>, \<open>AA\<close>, \<open>AZ\<close> and \<open>BA\<close>.
\<close>
theorem col_to_letter_base26:
  "(col > 0 \<longrightarrow> col_to_letter col \<noteq> [] \<and> list_all is_upper (col_to_letter col) \<and>
      letters_value (col_to_letter col) = col) \<and>
   col_to_letter 1 = ''A'' \<and> col_to_letter 26 = ''Z'' \<and> col_to_letter 27 = ''AA'' \<and>
   col_to_letter 52 = ''AZ'' \<and> col_to_letter 53 = ''BA''"
proof -
  have "col_to_letter col \<noteq> []" if "col > 0"
    using that by (simp add: col_to_letter_pos)
  moreover have "list_all is_upper (col_to_letter col)"
    using set_col_to_letter [of col] by (auto simp add: list_all_iff)
  moreover have "col_to_letter 1 = ''A''" "col_to_letter 26 = ''Z''" "col_to_letter 27 = ''AA''"
    "col_to_letter 52 = ''AZ''" "col_to_letter 53 = ''BA''"
    by (simp_all add: letter_eval)
  ultimately show ?thesis
    by (simp add: letters_value_col_to_letter)
qed

theorem col_to_letter_base26_witness:
  "(0::nat) < 703 \<and> col_to_letter 703 = ''AAA'' \<and> letters_value ''AAA'' = 703"
  using col_to_letter_base26 [of 703]
  by (simp add: letter_eval)


section \<open>Decimal numerals and unique names: proofs\<close>

lemma digit_char_inj:
  assumes "digit_char a = digit_char b" "a < 10" "b < 10"
  shows "a = b"
  using assms by (simp add: digit_char_def)

lemma str_nat_nonempty: "str_nat n \<noteq> []"
  by (subst str_nat.simps) simp

lemma str_nat_inj: "str_nat n = str_nat m \<Longrightarrow> n = m"
proof (induction n arbitrary: m rule: str_nat.induct)
  case (1 n)
  show ?case
  proof (cases "n < 10")
    case small_n: True
    show ?thesis
    proof (cases "m < 10")
      case True
      with small_n "1.prems" have "digit_char n = digit_char m"
        by (simp add: str_nat.simps [of n] str_nat.simps [of m])
      then show ?thesis
        using small_n True by (rule digit_char_inj)
    next
      case False
      with small_n "1.prems" have "[digit_char n] = str_nat (m div 10) @ [digit_char (m mod 10)]"
        by (simp add: str_nat.simps [of n] str_nat.simps [of m])
      then show ?thesis
        using str_nat_nonempty [of "m div 10"] by simp
    qed
  next
    case big_n: False
    show ?thesis
    proof (cases "m < 10")
      case True
      with big_n "1.prems" have "str_nat (n div 10) @ [digit_char (n mod 10)] = [digit_char m]"
        by (simp add: str_nat.simps [of n] str_nat.simps [of m])
      then show ?thesis
        using str_nat_nonempty [of "n div 10"] by simp
    next
      case False
      with big_n "1.prems" have "str_nat (n div 10) = str_nat (m div 10)"
        and "digit_char (n mod 10) = digit_char (m mod 10)"
        by (simp_all add: str_nat.simps [of n] str_nat.simps [of m])
      then have "n div 10 = m div 10" and "n mod 10 = m mod 10"
        using big_n "1.IH" digit_char_inj [of "n mod 10" "m mod 10"] by simp_all
      then show ?thesis
        by (metis mult_div_mod_eq)
    qed
  qed
qed

lemma candidate_inj: "candidate base_name j = candidate base_name k \<Longrightarrow> j = k"
  by (simp add: candidate_def str_nat_inj)

lemma free_candidate_exists:
  assumes "finite names"
  shows "\<exists>k\<ge>c. JStr (candidate base_name k) \<notin> names"
proof (rule ccontr)
  assume "\<not> (\<exists>k\<ge>c. JStr (candidate base_name k) \<notin> names)"
  then have "(\<lambda>k. JStr (candidate base_name k)) ` {c..} \<subseteq> names"
    by auto
  then have "finite ((\<lambda>k. JStr (candidate base_name k)) ` {c..})"
    using assms by (rule finite_subset)
  moreover have "inj_on (\<lambda>k. JStr (candidate base_name k)) {c..}"
    by (rule inj_onI) (simp add: candidate_inj)
  ultimately have "finite {c..}"
    by (rule finite_imageD)
  then show False
    by (simp add: infinite_Ici)
qed

lemma probe_runs_to:
  assumes "JStr (candidate base_name k) \<notin> names"
    and "\<forall>j\<in>{c..<k}. JStr (candidate base_name j) \<in> names"
    and "c \<le> k"
  shows "probe names base_name c = Some (candidate base_name k)"
  using assms
proof (induction "k - c" arbitrary: c)
  case 0
  then have "c = k" by simp
  with 0 show ?case
    by (subst probe.simps) (simp add: Let_def)
next
  case (Suc d)
  then have taken: "JStr (candidate base_name c) \<in> names" and "Suc c \<le> k" and "d = k - Suc c"
    by auto
  moreover from Suc.prems have "\<forall>j\<in>{Suc c..<k}. JStr (candidate base_name j) \<in> names"
    by auto
  ultimately have "probe names base_name (Suc c) = Some (candidate base_name k)"
    using Suc.hyps(1) [of "Suc c"] Suc.prems(1) by simp
  with taken show ?case
    by (subst probe.simps) (simp add: Let_def)
qed

lemma first_free_candidate:
  assumes "finite names"
  shows "\<exists>k\<ge>1. JStr (candidate base_name k) \<notin> names \<and>
           (\<forall>j\<in>{1..<k}. JStr (candidate base_name j) \<in> names)"
proof -
  define free where "free k \<longleftrightarrow> 1 \<le> k \<and> JStr (candidate base_name k) \<notin> names" for k
  define k where "k = (LEAST k. free k)"
  have "\<exists>k. free k"
    using free_candidate_exists [OF assms, of 1 base_name] by (auto simp add: free_def)
  then have "free k"
    unfolding k_def by (rule LeastI_ex)
  moreover have "\<not> free j" if "j < k" for j
    using that not_less_Least unfolding k_def by blast
  ultimately show ?thesis
    unfolding free_def by (intro exI [of _ k]) auto
qed

lemmas str_eval = str_nat.simps digit_char_def char_of_def bit_iff_odd drop_bit_eq_div

text \<open>
  C9. \<^verbatim>\<open>get_unique_filename\<close> always returns. A base name that is not among the existing names
  is returned unchanged; otherwise the result is the base name with the suffix \<open>_(k)\<close> for the
  least \<open>k \<ge> 1\<close> whose candidate is not among them, every smaller suffix being taken. With the
  existing names \<open>X\<close> and \<open>X_(1)\<close>, resolving \<open>X\<close> yields \<open>X_(2)\<close>.
\<close>
theorem get_unique_filename_linear_probe:
  "(\<exists>k. get_unique_filename files base_name =
          Some (if JStr base_name \<notin> existing_names files then base_name
                else candidate base_name k) \<and>
        (JStr base_name \<in> existing_names files \<longrightarrow>
           1 \<le> k \<and> JStr (candidate base_name k) \<notin> existing_names files \<and>
           (\<forall>j\<in>{1..<k}. JStr (candidate base_name j) \<in> existing_names files))) \<and>
   get_unique_filename [[''name'' \<mapsto> JStr ''X''], [''name'' \<mapsto> JStr ''X_(1)'']] ''X'' = Some ''X_(2)''"
proof
  show "\<exists>k. get_unique_filename files base_name =
          Some (if JStr base_name \<notin> existing_names files then base_name
                else candidate base_name k) \<and>
        (JStr base_name \<in> existing_names files \<longrightarrow>
           1 \<le> k \<and> JStr (candidate base_name k) \<notin> existing_names files \<and>
           (\<forall>j\<in>{1..<k}. JStr (candidate base_name j) \<in> existing_names files))"
  proof (cases "JStr base_name \<in> existing_names files")
    case False
    then show ?thesis
      by (simp add: get_unique_filename_def Let_def)
  next
    case True
    have "finite (existing_names files)"
      by (simp add: existing_names_def)
    then obtain k where k: "1 \<le> k" "JStr (candidate base_name k) \<notin> existing_names files"
      "\<forall>j\<in>{1..<k}. JStr (candidate base_name j) \<in> existing_names files"
      using first_free_candidate by blast
    then have "probe (existing_names files) base_name 1 = Some (candidate base_name k)"
      by (intro probe_runs_to) simp_all
    with True k show ?thesis
      by (intro exI [of _ k]) (simp add: get_unique_filename_def Let_def)
  qed
next
  let ?names = "existing_names [[''name'' \<mapsto> JStr ''X''], [''name'' \<mapsto> JStr ''X_(1)'']]"
  have names: "?names = {JStr ''X'', JStr ''X_(1)''}"
    by (auto simp add: existing_names_def py_get_def)
  have "candidate ''X'' 1 = ''X_(1)''" "candidate ''X'' 2 = ''X_(2)''"
    by (simp_all add: candidate_def str_eval)
  then have "probe ?names ''X'' 1 = Some (candidate ''X'' 2)"
    unfolding names by (intro probe_runs_to) (simp_all add: atLeastLessThan_upt upt_rec)
  then show "get_unique_filename [[''name'' \<mapsto> JStr ''X''], [''name'' \<mapsto> JStr ''X_(1)'']] ''X'' =
      Some ''X_(2)''"
    using \<open>candidate ''X'' 2 = ''X_(2)''\<close> by (simp add: get_unique_filename_def Let_def names)
qed

theorem get_unique_filename_linear_probe_witness:
  "\<exists>k. get_unique_filename [[''name'' \<mapsto> JStr ''report''], Map.empty] ''report'' =
          Some (candidate ''report'' k) \<and> 1 \<le> k \<and>
        JStr (candidate ''report'' k) \<notin> {JStr ''report'', JStr []}"
proof -
  have names: "existing_names [[''name'' \<mapsto> JStr ''report''], Map.empty] = {JStr ''report'', JStr []}"
    by (auto simp add: existing_names_def py_get_def)
  show ?thesis
    using get_unique_filename_linear_probe [of "[[''name'' \<mapsto> JStr ''report''], Map.empty]" "''report''"]
    unfolding names by auto
qed


section \<open>Chunked writes: proofs\<close>

lemma start_row_A1: "start_row_of ''A1'' = 1"
  by (simp add: start_row_of_def upper_char_def is_upper_def is_digit_def int_of_digits_def Let_def)

lemma str_nat_rows:
  "str_nat 1 = ''1''" "str_nat 4000 = ''4000''" "str_nat 4001 = ''4001''"
  "str_nat 8000 = ''8000''" "str_nat 8001 = ''8001''" "str_nat 10000 = ''10000''"
  by (simp_all add: str_eval)

lemma str_nat_Suc_0: "str_nat (Suc 0) = ''1''"
  using str_nat_rows(1) by (simp only: One_nat_def)

lemma three_batches: "[0..<3] = [0, 1, 2]"
  by (simp add: upt_rec)

text \<open>
  C4. A grid of 10000 rows written from cell \<open>A1\<close> with chunk size 4000, with a spreadsheet
  token given and the first two chunks accepted, issues exactly three PUTs, in this order: rows
  1 to 4000, 4001 to 8000 and 8001 to 10000 of the sheet, each with the range
  \<open>sheet!A<first>:<letters><last>\<close>, where the letters encode the widest row's length, and each
  carrying the matching slice of the grid. The call returns whether the third was accepted.
\<close>
theorem write_data_three_chunks:
  assumes "length data = 10000"
    and "tok \<noteq> []"
    and "reply 0 = Put_code (Some 0)"
    and "reply 1 = Put_code (Some 0)"
  shows "write_data reply attr data sheet_id ''A1'' (Some tok) 4000 =
     Inr (reply 2 = Put_code (Some 0),
       [\<lparr>put_token = tok,
         put_range = sheet_id @ ''!A1:'' @ col_to_letter (Max (set (map length data))) @ ''4000'',
         put_values = take 4000 data\<rparr>,
        \<lparr>put_token = tok,
         put_range = sheet_id @ ''!A4001:'' @ col_to_letter (Max (set (map length data))) @ ''8000'',
         put_values = drop 4000 (take 8000 data)\<rparr>,
        \<lparr>put_token = tok,
         put_range = sheet_id @ ''!A8001:'' @ col_to_letter (Max (set (map length data))) @ ''10000'',
         put_values = drop 8000 data\<rparr>])"
proof -
  have nonempty: "data \<noteq> []"
    using assms(1) by auto
  have batches: "(length data + 4000 - 1) div 4000 = 3"
    using assms(1) by simp
  show ?thesis
  proof (cases "reply 2")
    case Put_raises
    then show ?thesis
      using assms nonempty
      by (simp add: write_data_def truthy_str_def Let_def three_batches start_row_A1 str_nat_rows str_nat_Suc_0)
  next
    case (Put_code c)
    then show ?thesis
      using assms nonempty
      by (simp add: write_data_def truthy_str_def Let_def three_batches start_row_A1 str_nat_rows str_nat_Suc_0)
  qed
qed

theorem write_data_three_chunks_witness:
  "write_data (\<lambda>i. Put_code (Some 0)) Unassigned (replicate 10000 [JStr ''a'', JNum 1]) ''s1'' ''A1''
     (Some ''shtcn'') 4000 =
   Inr (True,
     [\<lparr>put_token = ''shtcn'', put_range = ''s1!A1:B4000'',
       put_values = replicate 4000 [JStr ''a'', JNum 1]\<rparr>,
      \<lparr>put_token = ''shtcn'', put_range = ''s1!A4001:B8000'',
       put_values = replicate 4000 [JStr ''a'', JNum 1]\<rparr>,
      \<lparr>put_token = ''shtcn'', put_range = ''s1!A8001:B10000'',
       put_values = replicate 2000 [JStr ''a'', JNum 1]\<rparr>])"
proof -
  have "col_to_letter 2 = ''B''"
    by (simp add: letter_eval)
  then have "col_to_letter (Suc (Suc 0)) = ''B''"
    by (simp only: numeral_2_eq_2)
  then show ?thesis
    using write_data_three_chunks
      [of "replicate 10000 [JStr ''a'', JNum 1]" "''shtcn''" "\<lambda>i. Put_code (Some 0)" Unassigned "''s1''"]
    by simp
qed


section \<open>Token management: proofs\<close>

lemma posted_grows: "posted s @ [e] \<noteq> posted s"
  by simp

lemma save_config_posted: "posted (save_config env s) = posted s"
  by (simp add: save_config_def Let_def split: config_content.splits)

lemma store_user_token_posted: "posted (snd (store_user_token env result s)) = posted s"
  by (simp add: store_user_token_def Let_def save_config_posted)

lemma refresh_user_token_changes:
  assumes "truthy_str (refresh_token s)"
  shows "snd (refresh_user_token env s) \<noteq> s"
proof -
  have "posted (snd (refresh_user_token env s)) \<noteq> posted s"
    using assms
    by (simp add: refresh_user_token_def Let_def store_user_token_posted
        split: option.splits)
  then show ?thesis by auto
qed

lemma get_user_access_token_cached_iff:
  assumes "truthy_str (user_access_token s)"
  shows "get_user_access_token env s = (user_access_token s, s) \<longleftrightarrow>
         now env < token_expires_at s - 300"
proof (cases "now env < token_expires_at s - 300")
  case True
  with assms show ?thesis
    by (simp add: get_user_access_token_def)
next
  case False
  have "get_user_access_token env s \<noteq> (user_access_token s, s)"
  proof (cases "truthy_str (refresh_token s)")
    case True
    then have "snd (refresh_user_token env s) \<noteq> s"
      by (rule refresh_user_token_changes)
    with assms False show ?thesis
      by (auto simp add: get_user_access_token_def split: prod.splits bool.splits)
  next
    case no_refresh: False
    then have "refresh_user_token env s = (False, s)"
      by (simp add: refresh_user_token_def)
    with assms False show ?thesis
      by (auto simp add: get_user_access_token_def truthy_str_def split: option.splits)
  qed
  with False show ?thesis by simp
qed

lemma get_tenant_access_token_cached_iff:
  assumes "truthy_str (tenant_access_token s)"
  shows "get_tenant_access_token env s = (tenant_access_token s, s) \<longleftrightarrow>
         now env < token_expires_at s - 300"
proof (cases "now env < token_expires_at s - 300")
  case True
  with assms show ?thesis
    by (simp add: get_tenant_access_token_def)
next
  case False
  have "posted (snd (get_tenant_access_token env s)) \<noteq> posted s"
    using False by (simp add: get_tenant_access_token_def Let_def split: option.splits)
  then have "get_tenant_access_token env s \<noteq> (tenant_access_token s, s)"
    by auto
  with False show ?thesis by simp
qed

lemma save_config_fields:
  "user_access_token (save_config env s) = user_access_token s"
  "refresh_token (save_config env s) = refresh_token s"
  "token_expires_at (save_config env s) = token_expires_at s"
  by (simp_all add: save_config_def Let_def split: config_content.splits)

lemma get_user_access_token_renews:
  assumes "truthy_str (user_access_token s)"
    and "\<not> now env < token_expires_at s - 300"
  shows "delegated_renewal env s (get_user_access_token env s)"
proof (cases "truthy_str (refresh_token s)")
  case False
  with assms show ?thesis
    by (simp add: delegated_renewal_def get_user_access_token_def refresh_user_token_def)
next
  case True
  with assms show ?thesis
    by (auto simp add: delegated_renewal_def get_user_access_token_def refresh_user_token_def
        store_user_token_def Let_def save_config_fields save_config_posted
        split: option.splits)
qed

lemma get_tenant_access_token_renews:
  assumes "\<not> now env < token_expires_at s - 300"
  shows "service_renewal env s (get_tenant_access_token env s)"
  using assms
  by (simp add: service_renewal_def get_tenant_access_token_def Let_def split: option.splits)

text \<open>
  C3. With a cached token, either accessor hands it back with the state untouched (no request
  is posted, nothing is renewed) if and only if \<open>now < expiry - 300\<close>; otherwise it carries out
  a renewal: the delegated accessor refreshes the token, the service accessor requests a new
  one. At \<open>expiry - now = 300\<close> the token is not handed back and the renewal takes place; at
  \<open>expiry - now = 301\<close> the token is handed back. This holds alike for
  \<^verbatim>\<open>get_user_access_token\<close> and \<^verbatim>\<open>get_tenant_access_token\<close>.
\<close>
theorem cached_token_usable_iff:
  "(truthy_str (user_access_token s) \<longrightarrow>
      (get_user_access_token env s = (user_access_token s, s) \<longleftrightarrow>
         now env < token_expires_at s - 300) \<and>
      (\<not> now env < token_expires_at s - 300 \<longrightarrow>
         delegated_renewal env s (get_user_access_token env s)) \<and>
      (token_expires_at s - now env = 300 \<longrightarrow>
         get_user_access_token env s \<noteq> (user_access_token s, s) \<and>
         delegated_renewal env s (get_user_access_token env s)) \<and>
      (token_expires_at s - now env = 301 \<longrightarrow>
         get_user_access_token env s = (user_access_token s, s))) \<and>
   (truthy_str (tenant_access_token s) \<longrightarrow>
      (get_tenant_access_token env s = (tenant_access_token s, s) \<longleftrightarrow>
         now env < token_expires_at s - 300) \<and>
      (\<not> now env < token_expires_at s - 300 \<longrightarrow>
         service_renewal env s (get_tenant_access_token env s)) \<and>
      (token_expires_at s - now env = 300 \<longrightarrow>
         get_tenant_access_token env s \<noteq> (tenant_access_token s, s) \<and>
         service_renewal env s (get_tenant_access_token env s)) \<and>
      (token_expires_at s - now env = 301 \<longrightarrow>
         get_tenant_access_token env s = (tenant_access_token s, s)))"
proof -
  have at_300: "\<not> now env < token_expires_at s - 300" if "token_expires_at s - now env = 300"
    using that by linarith
  have at_301: "now env < token_expires_at s - 300" if "token_expires_at s - now env = 301"
    using that by linarith
  have user: "delegated_renewal env s (get_user_access_token env s)"
    if "truthy_str (user_access_token s)" "\<not> now env < token_expires_at s - 300"
    using that by (rule get_user_access_token_renews)
  have tenant: "service_renewal env s (get_tenant_access_token env s)"
    if "\<not> now env < token_expires_at s - 300"
    using that by (rule get_tenant_access_token_renews)
  show ?thesis
    using get_user_access_token_cached_iff [of s env] get_tenant_access_token_cached_iff [of s env]
      at_300 at_301 user tenant
    by blast
qed



theorem cached_token_usable_iff_witness:
  "get_user_access_token (demo_env\<lparr>now := 4699\<rparr>) demo_state = (Some ''u-1'', demo_state) \<and>
   fst (get_user_access_token (demo_env\<lparr>now := 4700\<rparr>) demo_state) = Some ''u-3'' \<and>
   posted (snd (get_user_access_token (demo_env\<lparr>now := 4700\<rparr>) demo_state)) =
     [App_access_token, Oidc_refresh_access_token] \<and>
   token_expires_at (snd (get_user_access_token (demo_env\<lparr>now := 4700\<rparr>) demo_state)) = 13201 \<and>
   get_tenant_access_token (demo_env\<lparr>now := 4699\<rparr>) (demo_state\<lparr>tenant_access_token := Some ''t-0''\<rparr>) =
     (Some ''t-0'', demo_state\<lparr>tenant_access_token := Some ''t-0''\<rparr>) \<and>
   fst (get_tenant_access_token (demo_env\<lparr>now := 4700\<rparr>)
          (demo_state\<lparr>tenant_access_token := Some ''t-0''\<rparr>)) = Some ''t-1'' \<and>
   posted (snd (get_tenant_access_token (demo_env\<lparr>now := 4700\<rparr>)
          (demo_state\<lparr>tenant_access_token := Some ''t-0''\<rparr>))) = [Tenant_access_token]"
proof -
  let ?early = "demo_env\<lparr>now := 4699\<rparr>" and ?late = "demo_env\<lparr>now := 4700\<rparr>"
  let ?t = "demo_state\<lparr>tenant_access_token := Some ''t-0''\<rparr>"
  define u_out where "u_out = get_user_access_token ?late demo_state"
  define t_out where "t_out = get_tenant_access_token ?late ?t"
  have cached: "truthy_str (user_access_token demo_state)" "truthy_str (tenant_access_token ?t)"
    and early: "now ?early < token_expires_at demo_state - 300"
      "now ?early < token_expires_at ?t - 300"
    and late: "\<not> now ?late < token_expires_at demo_state - 300"
      "\<not> now ?late < token_expires_at ?t - 300"
    by (simp_all add: demo_state_def demo_env_def truthy_str_def)
  have "get_user_access_token ?early demo_state = (user_access_token demo_state, demo_state)"
    using cached_token_usable_iff [of demo_state ?early] cached early by blast
  then have u_early: "get_user_access_token ?early demo_state = (Some ''u-1'', demo_state)"
    by (simp add: demo_state_def)
  have "get_tenant_access_token ?early ?t = (tenant_access_token ?t, ?t)"
    using cached_token_usable_iff [of ?t ?early] cached early by blast
  then have t_early: "get_tenant_access_token ?early ?t = (Some ''t-0'', ?t)"
    by simp
  have "delegated_renewal ?late demo_state u_out"
    unfolding u_out_def using cached_token_usable_iff [of demo_state ?late] cached late by blast
  then have u_late: "fst u_out = Some ''u-3''"
    "posted (snd u_out) = [App_access_token, Oidc_refresh_access_token]"
    "token_expires_at (snd u_out) = 13201"
    by (simp_all add: delegated_renewal_def demo_state_def demo_env_def truthy_str_def)
  have "service_renewal ?late ?t t_out"
    unfolding t_out_def using cached_token_usable_iff [of ?t ?late] cached late by blast
  then have t_late: "fst t_out = Some ''t-1''" "posted (snd t_out) = [Tenant_access_token]"
    by (simp_all add: service_renewal_def demo_state_def demo_env_def)
  from u_early t_early u_late t_late show ?thesis
    unfolding u_out_def t_out_def by blast
qed







end
